theory Spec2Isabelle
  imports Complex_Main
begin

section \<open>The squircle-ring pattern of \<open>straight_line_zags.py\<close>\<close>

text \<open>
  The program computes with numpy and Python floats. Every claim verified below is a
  claim about the formulas, so the model computes over \<^typ>\<open>real\<close>: \<open>np.cos\<close>,
  \<open>np.sqrt\<close> and \<open>np.pi\<close> are \<^const>\<open>cos\<close>, \<^const>\<open>sqrt\<close> and \<^const>\<open>pi\<close>, and no
  rounding happens. Python integers are \<^typ>\<open>int\<close>. What raises in Python is a value
  \<open>Inl e\<close> of the result type.
\<close>

subsection \<open>Errors and the numpy and Python primitives the source calls\<close>

datatype py_error = ValueError | IndexError | ZeroDivisionError

text \<open>
  \<open>a % m\<close> on floats: the result has the sign of the divisor. The source only divides
  by \<open>2 * np.pi\<close>, so the division by zero of \<open>%\<close> is not a branch here.
\<close>

definition float_mod :: "real \<Rightarrow> real \<Rightarrow> real" where
  "float_mod a m = a - m * of_int \<lfloor>a / m\<rfloor>"

text \<open>\<open>a % b\<close> on Python integers: floor modulus, \<open>ZeroDivisionError\<close> when \<open>b = 0\<close>.\<close>

definition int_mod :: "int \<Rightarrow> int \<Rightarrow> py_error + int" where
  "int_mod a b = (if b = 0 then Inl ZeroDivisionError else Inr (a mod b))"

text \<open>
  \<open>np.linspace(start, stop, num)\<close> with the default \<open>endpoint=True\<close>: \<open>num\<close> samples,
  the \<open>k\<close>-th at \<open>start + k * step\<close> with \<open>step = (stop - start) / (num - 1)\<close>; a single
  sample is \<open>start\<close>; a negative \<open>num\<close> raises \<open>ValueError\<close>.
\<close>

definition linspace :: "real \<Rightarrow> real \<Rightarrow> int \<Rightarrow> py_error + real list" where
  "linspace start stop num =
     (if num < 0 then Inl ValueError
      else let step = (if 1 < num then (stop - start) / of_int (num - 1) else 0)
           in Inr (map (\<lambda>k. start + real k * step) [0..<nat num]))"

text \<open>\<open>np.zeros((n,))\<close>: \<open>n\<close> zeros; negative dimensions raise \<open>ValueError\<close>.\<close>

definition np_zeros :: "int \<Rightarrow> py_error + real list" where
  "np_zeros n = (if n < 0 then Inl ValueError else Inr (replicate (nat n) 0))"

text \<open>
  A slice bound of Python, clipped into \<open>[0, n]\<close>; a negative bound counts from the end.
\<close>

definition slice_bound :: "int \<Rightarrow> nat \<Rightarrow> nat" where
  "slice_bound i n = (if i < 0 then nat (max (i + int n) 0) else min (nat i) n)"

text \<open>\<open>xs[lo:hi]\<close>, read.\<close>

definition get_slice :: "'a list \<Rightarrow> int \<Rightarrow> int \<Rightarrow> 'a list" where
  "get_slice xs lo hi =
     (let a = slice_bound lo (length xs); b = slice_bound hi (length xs)
      in take (b - a) (drop a xs))"

text \<open>
  \<open>xs[lo:hi] = src\<close> on a one-dimensional numpy array (\<open>hi = None\<close> for \<open>xs[lo:]\<close>).
  The array keeps its length; \<open>src\<close> must have the length of the slice, or length 1
  (broadcast over the slice), otherwise numpy raises \<open>ValueError\<close>.
\<close>

definition set_slice :: "real list \<Rightarrow> int \<Rightarrow> int option \<Rightarrow> real list \<Rightarrow> py_error + real list" where
  "set_slice xs lo hi src =
     (let n = length xs;
          a = slice_bound lo n;
          b = (case hi of None \<Rightarrow> n | Some h \<Rightarrow> max a (slice_bound h n));
          m = b - a
      in if length src = m then Inr (take a xs @ src @ drop b xs)
         else if length src = 1 then Inr (take a xs @ replicate m (hd src) @ drop b xs)
         else Inl ValueError)"

text \<open>
  \<open>xs[i]\<close> for a Python integer \<open>i\<close>: an index in \<open>[0, len)\<close> reads from the front, one
  in \<open>[-len, 0)\<close> reads from the back, any other raises \<open>IndexError\<close>.
\<close>

definition get_item :: "'a list \<Rightarrow> int \<Rightarrow> py_error + 'a" where
  "get_item xs i =
     (if 0 \<le> i \<and> i < int (length xs) then Inr (xs ! nat i)
      else if i < 0 \<and> - int (length xs) \<le> i then Inr (xs ! nat (int (length xs) + i))
      else Inl IndexError)"

subsection \<open>\<open>circle\<close> (lines 26 to 40)\<close>

definition circle :: "real \<Rightarrow> real \<Rightarrow> real \<times> real" where
  "circle radius angle =
     (let angle = float_mod angle (2 * pi)
      in if angle < pi then
           (let x = cos angle * radius;
                y = sqrt (radius\<^sup>2 - x\<^sup>2)
            in (x, y))
         else
           (let x = cos angle * radius;
                y = - sqrt (radius\<^sup>2 - x\<^sup>2)
            in (x, y)))"

text \<open>
  The direct parametrisation the specification offers as an equivalent of \<^const>\<open>circle\<close>
  (this one follows the specification's words, not the source).
\<close>

definition circle_spec :: "real \<Rightarrow> real \<Rightarrow> real \<times> real" where
  "circle_spec radius angle = (radius * cos angle, radius * sin angle)"

subsection \<open>\<open>squircle\<close> (lines 43 to 63)\<close>

text \<open>
  The \<open>for\<close> loop over \<open>enumerate(np.linspace(...))\<close>, with the two lists \<open>x\<close> and \<open>y\<close>
  it appends to. \<open>break\<close> returns the lists as they are.
\<close>

fun squircle_loop ::
  "real \<Rightarrow> real \<Rightarrow> int \<Rightarrow> (nat \<times> real) list \<Rightarrow> real list \<times> real list \<Rightarrow> real list \<times> real list"
where
  "squircle_loop radius width segments [] (x, y) = (x, y)"
| "squircle_loop radius width segments ((idx, angle) # rest) (x, y) =
     (if segments \<le> int idx then (x, y)
      else let (tx, ty) = (if idx mod 2 = 0 then circle (radius - width / 2) angle
                           else circle (radius + width / 2) angle)
           in squircle_loop radius width segments rest (x @ [tx], y @ [ty]))"

text \<open>\<open>x.append(x[0])\<close> and \<open>y.append(y[0])\<close> raise \<open>IndexError\<close> on an empty list.\<close>

definition squircle :: "real \<Rightarrow> real \<Rightarrow> real \<Rightarrow> int \<Rightarrow> py_error + (real list \<times> real list)" where
  "squircle radius width angle_offset segments =
     (case linspace angle_offset (2 * pi + angle_offset) (segments + 1) of
        Inl e \<Rightarrow> Inl e
      | Inr angles \<Rightarrow>
          (let (x, y) = squircle_loop radius width segments (enumerate 0 angles) ([], [])
           in case get_item x 0 of
                Inl e \<Rightarrow> Inl e
              | Inr x0 \<Rightarrow>
                  (case get_item y 0 of
                     Inl e \<Rightarrow> Inl e
                   | Inr y0 \<Rightarrow> Inr (x @ [x0], y @ [y0]))))"

subsection \<open>\<open>AppWindow.redraw\<close> (lines 185 to 218)\<close>

text \<open>The dictionary of the control panel, one field per key.\<close>

record vals =
  num_bumps :: int
  num_rings :: int
  rot_rings :: int
  rot_offset :: real
  rad_offset :: real
  bump_size :: real

text \<open>
  What \<open>redraw\<close> reads and writes of the window: the values of the control panel, the
  stops of the gradient editor, and the lines held by the axes, each line being the
  coordinate lists and the colour of one \<open>ax.plot\<close> call, in the order of the calls.
\<close>

type_synonym 'c line = "(real list \<times> real list) \<times> 'c"

record ('g, 'c) app_window =
  controls :: vals
  gradient :: 'g
  ax :: "'c line list"

text \<open>
  Lines 200 to 203: the array \<open>offsets\<close>, from the local variables \<open>rot_rings\<close> (the
  doubled widget value) and \<open>rot_offset\<close>.
\<close>

definition offsets_array :: "int \<Rightarrow> real \<Rightarrow> py_error + real list" where
  "offsets_array rot_rings' rot_offset' =
     (case np_zeros (rot_rings' - 2) of
        Inl e \<Rightarrow> Inl e
      | Inr offsets \<Rightarrow>
          (case linspace 0 rot_offset' (rot_rings' div 2) of
             Inl e \<Rightarrow> Inl e
           | Inr up \<Rightarrow>
               (case set_slice offsets 0 (Some (rot_rings' div 2)) up of
                  Inl e \<Rightarrow> Inl e
                | Inr offsets \<Rightarrow>
                    (case linspace rot_offset' 0 (rot_rings' div 2) of
                       Inl e \<Rightarrow> Inl e
                     | Inr down \<Rightarrow>
                         set_slice offsets (rot_rings' div 2) None (get_slice down 1 (- 1))))))"

text \<open>
  One iteration of the loop of lines 211 to 217. Python evaluates the keyword arguments
  of \<open>squircle\<close> in order, then the call, then \<open>cmap(bidx / num_rings)\<close>; inside the loop
  \<open>num_rings\<close> is positive, so that division does not fail.
\<close>

definition plot_ring ::
  "(real \<Rightarrow> 'c) \<Rightarrow> int \<Rightarrow> int \<Rightarrow> int \<Rightarrow> real \<Rightarrow> real \<Rightarrow> real list \<Rightarrow> int \<Rightarrow> py_error + 'c line"
where
  "plot_ring cmap num_bumps' num_rings' rot_rings' rad_offset' bump_size' offsets bidx =
     (case int_mod bidx (rot_rings' - 2) of
        Inl e \<Rightarrow> Inl e
      | Inr i \<Rightarrow>
          (case get_item offsets i of
             Inl e \<Rightarrow> Inl e
           | Inr angle_offset \<Rightarrow>
               (case squircle (1 + rad_offset' * of_int bidx) bump_size' angle_offset num_bumps' of
                  Inl e \<Rightarrow> Inl e
                | Inr xy \<Rightarrow> Inr (xy, cmap (of_int bidx / of_int num_rings')))))"

text \<open>The loop over \<open>range(num_rings)\<close>; each \<open>ax.plot\<close> appends a line to the axes.\<close>

fun plot_rings ::
  "(real \<Rightarrow> 'c) \<Rightarrow> int \<Rightarrow> int \<Rightarrow> int \<Rightarrow> real \<Rightarrow> real \<Rightarrow> real list \<Rightarrow> int list \<Rightarrow> 'c line list
     \<Rightarrow> py_error + 'c line list"
where
  "plot_rings cmap num_bumps' num_rings' rot_rings' rad_offset' bump_size' offsets [] lines =
     Inr lines"
| "plot_rings cmap num_bumps' num_rings' rot_rings' rad_offset' bump_size' offsets (bidx # rest) lines =
     (case plot_ring cmap num_bumps' num_rings' rot_rings' rad_offset' bump_size' offsets bidx of
        Inl e \<Rightarrow> Inl e
      | Inr l \<Rightarrow>
          plot_rings cmap num_bumps' num_rings' rot_rings' rad_offset' bump_size' offsets rest
            (lines @ [l]))"

text \<open>\<open>range(n)\<close>.\<close>

definition py_range :: "int \<Rightarrow> int list" where
  "py_range n = map int [0..<nat n]"

text \<open>
  Lines 200 to 217 as a function of the local variables of \<open>redraw\<close> and of the lines
  the axes hold on entry: the offsets, then \<open>ax.clear()\<close>, then the loop.
\<close>

definition draw_rings ::
  "(real \<Rightarrow> 'c) \<Rightarrow> int \<Rightarrow> int \<Rightarrow> int \<Rightarrow> real \<Rightarrow> real \<Rightarrow> real \<Rightarrow> 'c line list
     \<Rightarrow> py_error + 'c line list"
where
  "draw_rings cmap num_bumps' num_rings' rot_rings' rot_offset' rad_offset' bump_size' lines =
     (case offsets_array rot_rings' rot_offset' of
        Inl e \<Rightarrow> Inl e
      | Inr offsets \<Rightarrow>
          (let cleared = [] :: 'c line list
           in plot_rings cmap num_bumps' num_rings' rot_rings' rad_offset' bump_size' offsets
                (py_range num_rings') cleared))"

text \<open>
  \<open>redraw\<close>. The colormap built in lines 187 to 191 from the stops of the gradient editor
  (\<open>from_gradient\<close>, \<open>sorted\<close>, matplotlib's \<open>LinearSegmentedColormap.from_list\<close>) belongs to
  the gradient widget and to matplotlib; it is the parameter \<open>colormap\<close>, a function from
  the stops to the colour function.
\<close>

definition redraw :: "('g \<Rightarrow> real \<Rightarrow> 'c) \<Rightarrow> ('g, 'c) app_window \<Rightarrow> py_error + ('g, 'c) app_window" where
  "redraw colormap self =
     (let v = controls self;
          cmap = colormap (gradient self);
          num_bumps' = num_bumps v * 2;
          num_rings' = num_rings v;
          rot_rings' = rot_rings v * 2;
          rot_offset' = rot_offset v;
          rad_offset' = rad_offset v;
          bump_size' = bump_size v
      in case draw_rings cmap num_bumps' num_rings' rot_rings' rot_offset' rad_offset' bump_size'
                (ax self) of
           Inl e \<Rightarrow> Inl e
         | Inr lines \<Rightarrow> Inr (self\<lparr>ax := lines\<rparr>))"

section \<open>Verification\<close>

subsection \<open>The angle reduction\<close>

lemma float_mod_lower: "0 < m \<Longrightarrow> 0 \<le> float_mod a m"
  using floor_divide_lower[of m a] by (simp add: float_mod_def mult.commute)

lemma float_mod_upper: "0 < m \<Longrightarrow> float_mod a m < m"
  using floor_divide_upper[of m a] by (simp add: float_mod_def algebra_simps)

lemma cos_float_mod: "cos (float_mod a (2 * pi)) = cos a"
  unfolding float_mod_def by (simp add: cos_diff)

lemma sin_float_mod: "sin (float_mod a (2 * pi)) = sin a"
  unfolding float_mod_def by (simp add: sin_diff)

lemma sqrt_circle: "0 \<le> r \<Longrightarrow> sqrt (r\<^sup>2 - (cos t * r)\<^sup>2) = r * \<bar>sin t\<bar>"
proof -
  assume r: "0 \<le> r"
  have "r\<^sup>2 - (cos t * r)\<^sup>2 = (r * sin t)\<^sup>2"
    by (simp add: power_mult_distrib sin_squared_eq algebra_simps)
  then show ?thesis using r by (simp add: abs_mult)
qed

lemma circle_polar: "0 \<le> radius \<Longrightarrow> circle radius angle = (radius * cos angle, radius * sin angle)"
proof -
  assume r: "0 \<le> radius"
  let ?t = "float_mod angle (2 * pi)"
  have lo: "0 \<le> ?t" and hi: "?t < 2 * pi"
    by (simp_all add: float_mod_lower float_mod_upper)
  show ?thesis
  proof (cases "?t < pi")
    case True
    then have "0 \<le> sin ?t" using lo by (simp add: sin_ge_zero)
    then have "\<bar>sin ?t\<bar> = sin angle" by (simp add: sin_float_mod)
    with True r show ?thesis
      by (simp add: circle_def Let_def sqrt_circle cos_float_mod)
  next
    case False
    then have "sin ?t \<le> 0" using hi by (simp add: sin_le_zero)
    then have "\<bar>sin ?t\<bar> = - sin angle" by (simp add: sin_float_mod)
    with False r show ?thesis
      by (simp add: circle_def Let_def sqrt_circle cos_float_mod)
  qed
qed

text \<open>
  Claim C5. For every radius \<open>\<ge> 0\<close> and every real angle, the circle point sampler
  of the source (angle reduced modulo \<open>2\<pi>\<close>, \<open>x = radius \<cdot> cos angle\<close>, \<open>y\<close> the positive
  square root of \<open>radius\<^sup>2 - x\<^sup>2\<close> when the reduced angle is below \<open>\<pi>\<close> and the negative one
  otherwise) returns exactly the point \<open>(radius \<cdot> cos angle, radius \<cdot> sin angle)\<close> of the
  direct parametrisation, over the reals.
\<close>

theorem circle_refines_circle_spec:
  "0 \<le> radius \<Longrightarrow> circle radius angle = circle_spec radius angle"
  by (simp add: circle_polar circle_spec_def)

theorem circle_refines_circle_spec_witness:
  "(0::real) \<le> 2 \<and> circle 2 pi = circle_spec 2 pi \<and> circle_spec 2 pi = (- 2, 0)"
  using circle_refines_circle_spec [of 2 pi] by (simp add: circle_spec_def)

subsection \<open>The ring builder\<close>

lemma squircle_loop_take:
  "squircle_loop r w s (enumerate i as) (x, y) =
     (x @ map (\<lambda>(k, a). fst (circle (if even k then r - w / 2 else r + w / 2) a))
            (take (nat (s - int i)) (enumerate i as)),
      y @ map (\<lambda>(k, a). snd (circle (if even k then r - w / 2 else r + w / 2) a))
            (take (nat (s - int i)) (enumerate i as)))"
proof (induction as arbitrary: i x y)
  case Nil
  show ?case by simp
next
  case (Cons a as)
  show ?case
  proof (cases "s \<le> int i")
    case True
    then show ?thesis by simp
  next
    case False
    then have n: "nat (s - int i) = Suc (nat (s - int (Suc i)))" by simp
    show ?thesis
      using False Cons.IH[of "Suc i"]
      by (simp add: n case_prod_beta even_iff_mod_2_eq_zero del: of_nat_Suc)
  qed
qed

lemma linspace_angles:
  "1 \<le> s \<Longrightarrow> linspace a (2 * pi + a) (s + 1) =
     Inr (map (\<lambda>k. a + real k * (2 * pi / of_int s)) [0..<Suc (nat s)])"
  by (simp add: linspace_def Let_def nat_add_distrib)

lemma enumerate_map_upt: "enumerate 0 (map f [0..<n]) = map (\<lambda>k. (k, f k)) [0..<n]"
  by (simp add: enumerate_eq_zip zip_map2 zip_same_conv_map)

lemma get_item_0: "get_item (map f [0..<Suc n]) 0 = Inr (f 0)"
  by (simp add: get_item_def Let_def upt_conv_Cons del: upt_Suc)

lemma squircle_loop_angles:
  "0 \<le> s \<Longrightarrow> squircle_loop r w s (enumerate 0 (map f [0..<Suc (nat s)])) ([], []) =
     (map (\<lambda>k. fst (circle (if even k then r - w / 2 else r + w / 2) (f k))) [0..<nat s],
      map (\<lambda>k. snd (circle (if even k then r - w / 2 else r + w / 2) (f k))) [0..<nat s])"
  unfolding squircle_loop_take
  by (simp add: enumerate_map_upt take_map o_def del: upt_Suc)

lemma squircle_points:
  assumes "1 \<le> s"
  shows "squircle r w a s =
     Inr (map (\<lambda>k. fst (circle (if even k then r - w / 2 else r + w / 2)
                           (a + real k * (2 * pi / of_int s)))) [0..<nat s]
            @ [fst (circle (r - w / 2) a)],
          map (\<lambda>k. snd (circle (if even k then r - w / 2 else r + w / 2)
                           (a + real k * (2 * pi / of_int s)))) [0..<nat s]
            @ [snd (circle (r - w / 2) a)])"
proof -
  obtain n where n: "nat s = Suc n" using assms by (cases "nat s") auto
  have s0: "0 \<le> s" using assms by simp
  show ?thesis
    unfolding squircle_def linspace_angles[OF assms] sum.case squircle_loop_angles[OF s0]
    by (simp add: n get_item_0 del: upt_Suc)
qed

lemma squircle_fails:
  "s < 1 \<Longrightarrow> squircle r w a s = Inl (if s < - 1 then ValueError else IndexError)"
proof -
  assume s: "s < 1"
  consider "s < - 1" | "s = - 1" | "s = 0" using s by linarith
  then show ?thesis
  proof cases
    case 1 then show ?thesis by (simp add: squircle_def linspace_def)
  next
    case 2 then show ?thesis by (simp add: squircle_def linspace_def get_item_def)
  next
    case 3 then show ?thesis by (simp add: squircle_def linspace_def get_item_def)
  qed
qed

text \<open>
  Claim C4. For every ring radius, bump width, angle offset and integer segment count
  \<open>n \<ge> 2\<close>, the ring builder returns the \<open>n\<close> points sampled at the equally spaced
  angles \<open>angle_offset + k \<cdot> (2\<pi> / n)\<close> for \<open>k = 0, \<dots>, n - 1\<close> (the sample at
  \<open>angle_offset + 2\<pi>\<close> is dropped by the \<open>break\<close>), the \<open>k\<close>-th on the inner circle of
  radius \<open>ring_radius - bump_width / 2\<close> when \<open>k\<close> is even and on the outer circle of radius
  \<open>ring_radius + bump_width / 2\<close> when \<open>k\<close> is odd, followed by a copy of the first point.
\<close>

theorem squircle_samples:
  "2 \<le> n \<Longrightarrow>
   squircle ring_radius bump_width angle_offset n =
     Inr (map (\<lambda>k. fst (circle (if even k then ring_radius - bump_width / 2
                                  else ring_radius + bump_width / 2)
                           (angle_offset + real k * (2 * pi / of_int n)))) [0..<nat n]
            @ [fst (circle (ring_radius - bump_width / 2) angle_offset)],
          map (\<lambda>k. snd (circle (if even k then ring_radius - bump_width / 2
                                  else ring_radius + bump_width / 2)
                           (angle_offset + real k * (2 * pi / of_int n)))) [0..<nat n]
            @ [snd (circle (ring_radius - bump_width / 2) angle_offset)])"
  by (rule squircle_points) simp

theorem squircle_samples_witness:
  "(2::int) \<le> 2 \<and> squircle 1 0 0 2 = Inr ([1, - 1, 1], [0, 0, 0])"
  using squircle_samples [of 2 1 0 0]
  by (simp add: circle_polar numeral_2_eq_2)

text \<open>
  Claim C9. The ring builder needs only \<open>segments \<ge> 1\<close>: for every such integer and any
  radius, width and angle offset it returns two coordinate lists of length
  \<open>segments + 1\<close> whose last element equals the first; for \<open>segments = 0\<close> the loop
  appends nothing and \<open>x[0]\<close> raises \<open>IndexError\<close>; and the call returns without an error
  exactly when \<open>segments \<ge> 1\<close>. (Below \<open>- 1\<close> the error is the \<open>ValueError\<close> of
  \<open>np.linspace\<close>, see \<open>squircle_fails\<close>.)
\<close>

theorem squircle_precondition:
  "(1 \<le> segments \<longrightarrow>
      (\<exists>x y. squircle radius width angle_offset segments = Inr (x, y)
         \<and> int (length x) = segments + 1 \<and> int (length y) = segments + 1
         \<and> last x = x ! 0 \<and> last y = y ! 0))
   \<and> squircle radius width angle_offset 0 = Inl IndexError
   \<and> ((\<exists>res. squircle radius width angle_offset segments = Inr res) \<longleftrightarrow> 1 \<le> segments)"
proof (intro conjI impI)
  assume s: "1 \<le> segments"
  obtain n where n: "nat segments = Suc n" using s by (cases "nat segments") auto
  then have m: "segments = 1 + int n" using s by linarith
  show "\<exists>x y. squircle radius width angle_offset segments = Inr (x, y)
         \<and> int (length x) = segments + 1 \<and> int (length y) = segments + 1
         \<and> last x = x ! 0 \<and> last y = y ! 0"
    using s unfolding squircle_points[OF s]
    by (simp add: n m nth_append upt_conv_Cons del: upt_Suc)
next
  show "squircle radius width angle_offset 0 = Inl IndexError"
    by (simp add: squircle_fails)
next
  show "(\<exists>res. squircle radius width angle_offset segments = Inr res) \<longleftrightarrow> 1 \<le> segments"
  proof (cases "1 \<le> segments")
    case True
    then show ?thesis by (simp add: squircle_points)
  next
    case False
    then have "segments < 1" by simp
    then show ?thesis by (simp add: squircle_fails)
  qed
qed

theorem squircle_precondition_witness:
  "(1::int) \<le> 1
   \<and> (\<exists>x y. squircle 1 0 0 1 = Inr (x, y) \<and> int (length x) = 2 \<and> int (length y) = 2
         \<and> last x = x ! 0 \<and> last y = y ! 0)
   \<and> squircle 1 0 0 0 = Inl IndexError
   \<and> \<not> (\<exists>res. squircle 1 0 0 (- 3) = Inr res)"
  using squircle_precondition [of 1 1 0 0] squircle_precondition [of "- 3" 1 0 0]
  by simp

subsection \<open>The offsets array\<close>

lemma linspace_ramp:
  "2 \<le> h \<Longrightarrow> linspace a b (int h) =
     Inr (map (\<lambda>k. a + real k * ((b - a) / real (h - 1))) [0..<h])"
  by (simp add: linspace_def Let_def of_nat_diff)

lemma get_slice_inner:
  "2 \<le> h \<Longrightarrow> get_slice (map f [0..<h]) 1 (- 1) = map f [1..<h - 1]"
proof -
  assume h: "2 \<le> h"
  have "take (h - 2) [1..<h] = [1..<1 + (h - 2)]"
    using h by (intro take_upt) simp
  also have "1 + (h - 2) = h - 1" using h by simp
  finally have t: "take (h - 2) [1..<h] = [1..<h - 1]" .
  have b: "slice_bound 1 h = 1" "slice_bound (- 1) h = h - 1"
    using h by (simp_all add: slice_bound_def nat_diff_distrib)
  have "get_slice (map f [0..<h]) 1 (- 1) = map f (take (h - 1 - 1) (drop 1 [0..<h]))"
    by (simp only: get_slice_def Let_def length_map length_upt diff_zero b drop_map take_map)
  also have "h - 1 - 1 = h - 2" by simp
  also have "drop 1 [0..<h] = [1..<h]" by (simp only: drop_upt add_0)
  finally show ?thesis by (simp only: t)
qed

lemma set_slice_head:
  "2 \<le> h \<Longrightarrow> length up = h \<Longrightarrow>
   set_slice (replicate (2 * h - 2) 0) 0 (Some (int h)) up = Inr (up @ replicate (h - 2) 0)"
  by (simp add: set_slice_def slice_bound_def Let_def min_def)

lemma set_slice_tail:
  "2 \<le> h \<Longrightarrow> length up = h \<Longrightarrow> length src = h - 2 \<Longrightarrow>
   set_slice (up @ replicate (h - 2) 0) (int h) None src = Inr (up @ src)"
  by (simp add: set_slice_def slice_bound_def Let_def)

lemma offsets_array_half:
  assumes h: "2 \<le> h"
  shows "offsets_array (2 * int h) ro =
     Inr (map (\<lambda>i. real i * (ro / real (h - 1))) [0..<h]
          @ map (\<lambda>k. ro - real k * (ro / real (h - 1))) [1..<h - 1])"
proof -
  let ?up = "map (\<lambda>k. 0 + real k * ((ro - 0) / real (h - 1))) [0..<h]"
  let ?down = "\<lambda>k. ro + real k * ((0 - ro) / real (h - 1))"
  have z: "np_zeros (2 * int h - 2) = Inr (replicate (2 * h - 2) 0)"
    using h by (simp add: np_zeros_def nat_diff_distrib nat_mult_distrib)
  have d: "(2 * int h) div 2 = int h" by simp
  have s1: "set_slice (replicate (2 * h - 2) 0) 0 (Some (int h)) ?up
              = Inr (?up @ replicate (h - 2) 0)"
    using h by (intro set_slice_head) simp_all
  have s2: "set_slice (?up @ replicate (h - 2) 0) (int h) None (map ?down [1..<h - 1])
              = Inr (?up @ map ?down [1..<h - 1])"
    using h by (intro set_slice_tail) simp_all
  have "offsets_array (2 * int h) ro = Inr (?up @ map ?down [1..<h - 1])"
    unfolding offsets_array_def z d sum.case linspace_ramp[OF h] s1 get_slice_inner[OF h] s2 ..
  also have "?up = map (\<lambda>i. real i * (ro / real (h - 1))) [0..<h]" by simp
  also have "map ?down [1..<h - 1] = map (\<lambda>k. ro - real k * (ro / real (h - 1))) [1..<h - 1]"
    by (simp add: algebra_simps diff_divide_distrib)
  finally show ?thesis .
qed

lemma offsets_array_even:
  assumes "even p" "4 \<le> p"
  shows "offsets_array p ro =
     Inr (map (\<lambda>i. real i * (ro / real (nat (p div 2) - 1))) [0..<nat (p div 2)]
          @ map (\<lambda>k. ro - real k * (ro / real (nat (p div 2) - 1))) [1..<nat (p div 2) - 1])"
proof -
  obtain h where ph: "p = 2 * int h" and h: "2 \<le> h"
  proof
    show "p = 2 * int (nat (p div 2))" "2 \<le> nat (p div 2)" using assms by auto
  qed
  have nh: "nat (p div 2) = h" using ph by simp
  show ?thesis unfolding nh unfolding ph by (rule offsets_array_half[OF h])
qed

lemma offsets_array_half_nth:
  assumes h: "2 \<le> h"
  shows "\<exists>sched. offsets_array (2 * int h) ro = Inr sched
     \<and> length sched = 2 * h - 2
     \<and> (\<forall>i<h. sched ! i = real i * (ro / real (h - 1)))
     \<and> (\<forall>j. h \<le> j \<and> j < 2 * h - 2 \<longrightarrow>
            sched ! j = ro - real (j - h + 1) * (ro / real (h - 1)))"
proof -
  let ?A = "map (\<lambda>i. real i * (ro / real (h - 1))) [0..<h]"
  let ?B = "map (\<lambda>k. ro - real k * (ro / real (h - 1))) [1..<h - 1]"
  have e: "offsets_array (2 * int h) ro = Inr (?A @ ?B)" by (rule offsets_array_half[OF h])
  have lA: "length ?A = h" by simp
  have lB: "length ?B = h - 2" by simp
  have l: "length (?A @ ?B) = 2 * h - 2" using h by simp
  have a: "\<forall>i<h. (?A @ ?B) ! i = real i * (ro / real (h - 1))"
    by (simp add: nth_append)
  have b: "\<forall>j. h \<le> j \<and> j < 2 * h - 2 \<longrightarrow>
            (?A @ ?B) ! j = ro - real (j - h + 1) * (ro / real (h - 1))"
  proof (intro allI impI)
    fix j assume j: "h \<le> j \<and> j < 2 * h - 2"
    then have k: "j - h < length [1..<h - 1]" by (simp only: length_upt) arith
    have "1 + (j - h) < h - 1" using j by arith
    with k have "?B ! (j - h) = ro - real (1 + (j - h)) * (ro / real (h - 1))"
      by (simp only: nth_map nth_upt)
    moreover have "(?A @ ?B) ! j = ?B ! (j - h)"
      using j by (simp only: nth_append lA) simp
    ultimately show "(?A @ ?B) ! j = ro - real (j - h + 1) * (ro / real (h - 1))"
      by (simp only: add.commute)
  qed
  from e l a b show ?thesis by blast
qed

lemma offsets_array_nth:
  assumes "even p" "4 \<le> p"
  shows "\<exists>h sched. p = 2 * int h \<and> 2 \<le> h \<and> offsets_array p ro = Inr sched
     \<and> length sched = 2 * h - 2
     \<and> (\<forall>i<h. sched ! i = real i * (ro / real (h - 1)))
     \<and> (\<forall>j. h \<le> j \<and> j < 2 * h - 2 \<longrightarrow>
            sched ! j = ro - real (j - h + 1) * (ro / real (h - 1)))"
proof -
  obtain h where ph: "p = 2 * int h" and h: "2 \<le> h"
  proof
    show "p = 2 * int (nat (p div 2))" "2 \<le> nat (p div 2)" using assms by auto
  qed
  show ?thesis using offsets_array_half_nth[OF h, of ro] ph h by blast
qed

lemma ramp_bounds:
  fixes t d ro :: real
  assumes "0 \<le> t" "t \<le> d" "0 < d" "0 \<le> ro"
  shows "0 \<le> t * (ro / d)" "t * (ro / d) \<le> ro"
proof -
  show "0 \<le> t * (ro / d)" using assms by simp
  have "t * ro \<le> d * ro" using assms by (simp add: mult_right_mono)
  then show "t * (ro / d) \<le> ro" using assms by (simp add: pos_divide_le_eq mult.commute)
qed

lemma offsets_array_half_bounds:
  assumes h: "2 \<le> h" and ro: "0 \<le> ro"
    and l: "length sched = 2 * h - 2"
    and a: "\<forall>i<h. sched ! i = real i * (ro / real (h - 1))"
    and b: "\<forall>j. h \<le> j \<and> j < 2 * h - 2 \<longrightarrow>
            sched ! j = ro - real (j - h + 1) * (ro / real (h - 1))"
  shows "\<forall>k<length sched. 0 \<le> sched ! k \<and> sched ! k \<le> ro"
    and "\<forall>j. h - 1 \<le> j \<and> Suc j < length sched \<longrightarrow> sched ! Suc j \<le> sched ! j"
    and "last sched = ro / real (h - 1)"
proof -
  have d: "0 < real (h - 1)" using h by simp
  show "\<forall>k<length sched. 0 \<le> sched ! k \<and> sched ! k \<le> ro"
  proof (intro allI impI)
    fix k assume k: "k < length sched"
    show "0 \<le> sched ! k \<and> sched ! k \<le> ro"
    proof (cases "k < h")
      case True
      then have "k \<le> h - 1" by arith
      then have "real k \<le> real (h - 1)" by (simp only: of_nat_le_iff)
      then have "0 \<le> real k * (ro / real (h - 1))" "real k * (ro / real (h - 1)) \<le> ro"
        using ramp_bounds[of "real k" "real (h - 1)" ro] d ro by simp_all
      then show ?thesis using a True by simp
    next
      case False
      then have j: "h \<le> k \<and> k < 2 * h - 2" using k l by arith
      then have "k - h + 1 \<le> h - 1" by arith
      then have "real (k - h + 1) \<le> real (h - 1)" by (simp only: of_nat_le_iff)
      then have "0 \<le> real (k - h + 1) * (ro / real (h - 1))"
        "real (k - h + 1) * (ro / real (h - 1)) \<le> ro"
        using ramp_bounds[of "real (k - h + 1)" "real (h - 1)" ro] d ro by simp_all
      then show ?thesis using b j by simp
    qed
  qed
  show "\<forall>j. h - 1 \<le> j \<and> Suc j < length sched \<longrightarrow> sched ! Suc j \<le> sched ! j"
  proof (intro allI impI)
    fix j assume j: "h - 1 \<le> j \<and> Suc j < length sched"
    then have sj: "h \<le> Suc j \<and> Suc j < 2 * h - 2" using l by arith
    have step: "0 \<le> ro / real (h - 1)" using d ro by simp
    have s1: "sched ! Suc j = ro - real (Suc j - h + 1) * (ro / real (h - 1))"
      using b sj by blast
    show "sched ! Suc j \<le> sched ! j"
    proof (cases "j < h")
      case True
      then have "j = h - 1" using j by arith
      then have "sched ! j = real (h - 1) * (ro / real (h - 1))" using a h by simp
      then have "sched ! j = ro" using d by simp
      moreover have "0 \<le> real (Suc j - h + 1) * (ro / real (h - 1))"
        using step by (intro mult_nonneg_nonneg) simp_all
      ultimately show ?thesis using s1 by simp
    next
      case False
      then have "h \<le> j \<and> j < 2 * h - 2" using sj by arith
      then have s0: "sched ! j = ro - real (j - h + 1) * (ro / real (h - 1))" using b by blast
      have "j - h + 1 \<le> Suc j - h + 1" by arith
      then have "real (j - h + 1) \<le> real (Suc j - h + 1)" by (simp only: of_nat_le_iff)
      then have "real (j - h + 1) * (ro / real (h - 1)) \<le> real (Suc j - h + 1) * (ro / real (h - 1))"
        using step by (rule mult_right_mono)
      then show ?thesis using s0 s1 by simp
    qed
  qed
  have ne: "sched \<noteq> []" using l h by auto
  have l1: "length sched - 1 = 2 * h - 3" using l by arith
  have la: "last sched = sched ! (2 * h - 3)"
    using last_conv_nth[OF ne] unfolding l1 .
  show "last sched = ro / real (h - 1)"
  proof (cases "h = 2")
    case True
    then have "sched ! (2 * h - 3) = real 1 * (ro / real (h - 1))" using a by simp
    then show ?thesis using la True by simp
  next
    case False
    then have h3: "3 \<le> h" using h by arith
    then have "h \<le> 2 * h - 3 \<and> 2 * h - 3 < 2 * h - 2" by arith
    then have "sched ! (2 * h - 3) = ro - real (2 * h - 3 - h + 1) * (ro / real (h - 1))"
      using b by blast
    also have "2 * h - 3 - h + 1 = h - 2" using h3 by arith
    also have "real (h - 2) = real (h - 1) - 1" using h3 by (simp add: of_nat_diff)
    also have "ro - (real (h - 1) - 1) * (ro / real (h - 1)) = ro / real (h - 1)"
      using d by (simp add: field_simps)
    finally show ?thesis using la by simp
  qed
qed

text \<open>
  Claim C2. For every even integer rotation period \<open>\<ge> 4\<close> and every real rotation
  offset, the offsets array is built without error and has \<open>rotation_period - 2\<close> entries.
  With \<open>h = rotation_period / 2\<close>: the entries at the indices \<open>[0, h)\<close> are the \<open>h\<close>
  samples of the linear ramp from 0 to the rotation offset, both ends included (entry 0
  is 0, entry \<open>h - 1\<close> is the rotation offset); the \<open>h - 2\<close> entries at the indices
  \<open>[h, rotation_period - 2)\<close> are the samples \<open>1, \<dots>, h - 2\<close> of the \<open>h\<close>-sample linear
  ramp from the rotation offset down to 0, that is, that ramp without its first sample
  (the peak) and its last one (the zero).
\<close>

theorem offsets_array_ramps:
  assumes "even rotation_period" "4 \<le> rotation_period"
  shows "\<exists>sched. offsets_array rotation_period rotation_offset = Inr sched
     \<and> int (length sched) = rotation_period - 2
     \<and> (\<forall>i<nat (rotation_period div 2).
            sched ! i = real i * (rotation_offset / real (nat (rotation_period div 2) - 1)))
     \<and> sched ! 0 = 0
     \<and> sched ! (nat (rotation_period div 2) - 1) = rotation_offset
     \<and> (\<forall>j. nat (rotation_period div 2) \<le> j \<and> j < nat (rotation_period - 2) \<longrightarrow>
            sched ! j = rotation_offset
              - real (j - nat (rotation_period div 2) + 1)
                * (rotation_offset / real (nat (rotation_period div 2) - 1)))"
proof -
  obtain h sched where ph: "rotation_period = 2 * int h" and h: "2 \<le> h"
    and s: "offsets_array rotation_period rotation_offset = Inr sched"
    and l: "length sched = 2 * h - 2"
    and a: "\<forall>i<h. sched ! i = real i * (rotation_offset / real (h - 1))"
    and b: "\<forall>j. h \<le> j \<and> j < 2 * h - 2 \<longrightarrow>
            sched ! j = rotation_offset - real (j - h + 1) * (rotation_offset / real (h - 1))"
    using offsets_array_nth[OF assms, of rotation_offset] by blast
  have nh: "nat (rotation_period div 2) = h" using ph by simp
  have n2: "nat (rotation_period - 2) = 2 * h - 2" using ph h by simp
  have li: "int (length sched) = rotation_period - 2" using ph h l by simp
  have z: "sched ! 0 = 0" using a h by simp
  have "sched ! (h - 1) = real (h - 1) * (rotation_offset / real (h - 1))"
    using a h by simp
  then have m: "sched ! (h - 1) = rotation_offset" using h by simp
  show ?thesis unfolding nh n2 using s li a z m b by blast
qed

theorem offsets_array_ramps_witness:
  "even (6::int) \<and> (4::int) \<le> 6 \<and> offsets_array 6 3 = Inr [0, 3 / 2, 3, 3 / 2]"
proof -
  obtain sched where s: "offsets_array 6 3 = Inr sched"
    and l: "int (length sched) = 6 - 2"
    and a: "\<forall>i<nat (6 div 2). sched ! i = real i * (3 / real (nat (6 div 2) - 1))"
    and b: "\<forall>j. nat (6 div 2) \<le> j \<and> j < nat (6 - 2) \<longrightarrow>
            sched ! j = 3 - real (j - nat (6 div 2) + 1) * (3 / real (nat (6 div 2) - 1))"
    using offsets_array_ramps [of 6 3] by auto
  have l4: "length sched = 4" using l by simp
  have "sched ! 0 = 0" using a[rule_format, of 0] by simp
  moreover have "sched ! 1 = 3 / 2" using a[rule_format, of 1] by simp
  moreover have "sched ! 2 = 3" using a[rule_format, of 2] by simp
  moreover have "sched ! 3 = 3 / 2" using b[rule_format, of 3] by simp
  ultimately have "sched = [0, 3 / 2, 3, 3 / 2]"
    using l4 by (intro nth_equalityI) (auto simp: less_Suc_eq numeral_eq_Suc)
  with s show ?thesis by simp
qed

text \<open>
  Claim C6. For every even rotation period \<open>\<ge> 4\<close> and every rotation offset \<open>\<ge> 0\<close>,
  every value of the offsets array lies in \<open>[0, rotation_offset]\<close>; the first entry is 0;
  from the midpoint on the entries do not increase, and the last entry is one ramp step
  \<open>rotation_offset / (rotation_period / 2 - 1)\<close> above 0 (this is how "the entries nearest
  the end approach 0" is read); the maximum of the array is the rotation offset, attained
  at the index \<open>rotation_period / 2 - 1\<close>.
\<close>

theorem offsets_array_bounds:
  assumes "even rotation_period" "4 \<le> rotation_period" "0 \<le> rotation_offset"
  shows "\<exists>sched. offsets_array rotation_period rotation_offset = Inr sched
     \<and> (\<forall>v\<in>set sched. 0 \<le> v \<and> v \<le> rotation_offset)
     \<and> sched ! 0 = 0
     \<and> (\<forall>j. nat (rotation_period div 2) - 1 \<le> j \<and> Suc j < length sched \<longrightarrow>
            sched ! Suc j \<le> sched ! j)
     \<and> last sched = rotation_offset / real (nat (rotation_period div 2) - 1)
     \<and> nat (rotation_period div 2) - 1 < length sched
     \<and> sched ! (nat (rotation_period div 2) - 1) = rotation_offset
     \<and> Max (set sched) = rotation_offset"
proof -
  obtain h sched where ph: "rotation_period = 2 * int h" and h: "2 \<le> h"
    and s: "offsets_array rotation_period rotation_offset = Inr sched"
    and l: "length sched = 2 * h - 2"
    and a: "\<forall>i<h. sched ! i = real i * (rotation_offset / real (h - 1))"
    and b: "\<forall>j. h \<le> j \<and> j < 2 * h - 2 \<longrightarrow>
            sched ! j = rotation_offset - real (j - h + 1) * (rotation_offset / real (h - 1))"
    using offsets_array_nth[OF assms(1,2), of rotation_offset] by blast
  note bounds = offsets_array_half_bounds[OF h assms(3) l a b]
  have nh: "nat (rotation_period div 2) = h" using ph by simp
  have r: "\<forall>v\<in>set sched. 0 \<le> v \<and> v \<le> rotation_offset"
    using bounds(1) by (auto simp: in_set_conv_nth)
  have z: "sched ! 0 = 0" using a h by simp
  have i: "h - 1 < length sched" using l h by arith
  have "sched ! (h - 1) = real (h - 1) * (rotation_offset / real (h - 1))"
    using a h by simp
  then have m: "sched ! (h - 1) = rotation_offset" using h by simp
  have "rotation_offset \<in> set sched" using i m nth_mem by metis
  then have mx: "Max (set sched) = rotation_offset"
    using r by (intro Max_eqI) auto
  show ?thesis unfolding nh using s r z bounds(2) bounds(3) i m mx by blast
qed

theorem offsets_array_bounds_witness:
  "even (6::int) \<and> (4::int) \<le> 6 \<and> (0::real) \<le> 3
   \<and> (\<exists>sched. offsets_array 6 3 = Inr sched
        \<and> (\<forall>v\<in>set sched. 0 \<le> v \<and> v \<le> 3)
        \<and> sched ! 0 = 0 \<and> last sched = 3 / 2 \<and> sched ! 2 = 3 \<and> Max (set sched) = 3)"
  using offsets_array_bounds [of 6 3] by simp blast

subsection \<open>The loop over the rings\<close>

lemma plot_rings_all:
  assumes "\<And>b. b \<in> set bs \<Longrightarrow> plot_ring cmap nb nr rr rad bw offs b = Inr (f b)"
  shows "plot_rings cmap nb nr rr rad bw offs bs lines = Inr (lines @ map f bs)"
  using assms by (induction bs arbitrary: lines) simp_all

lemma plot_ring_index:
  assumes "0 < length offs" "rr - 2 = int (length offs)"
  shows "plot_ring cmap nb nr rr rad bw offs (int i) =
     (case squircle (1 + rad * real i) bw (offs ! (i mod length offs)) nb of
        Inl e \<Rightarrow> Inl e
      | Inr xy \<Rightarrow> Inr (xy, cmap (real i / of_int nr)))"
proof -
  have m: "int_mod (int i) (rr - 2) = Inr (int (i mod length offs))"
    using assms by (simp add: int_mod_def zmod_int)
  have g: "get_item offs (int (i mod length offs)) = Inr (offs ! (i mod length offs))"
    using assms(1) by (simp add: get_item_def Let_def)
  show ?thesis by (simp add: plot_ring_def m g split: sum.split)
qed

lemma draw_rings_valid:
  assumes nb: "1 \<le> nb" and p: "even p" "4 \<le> p"
  shows "\<exists>sched rings. offsets_array p ro = Inr sched
     \<and> int (length sched) = p - 2 \<and> 0 < length sched
     \<and> draw_rings cmap nb nr p ro rad bw lines0 = Inr rings
     \<and> length rings = nat nr
     \<and> (\<forall>i<nat nr. \<exists>xy.
           squircle (1 + rad * real i) bw (sched ! (i mod length sched)) nb = Inr xy
           \<and> rings ! i = (xy, cmap (real i / of_int nr)))"
proof -
  obtain h sched where ph: "p = 2 * int h" and h: "2 \<le> h"
    and s: "offsets_array p ro = Inr sched"
    and l: "length sched = 2 * h - 2"
    using offsets_array_nth[OF p, of ro] by blast
  have l0: "0 < length sched" using l h by arith
  have lp: "p - 2 = int (length sched)" using l h ph by simp
  let ?sq = "\<lambda>i. squircle (1 + rad * real i) bw (sched ! (i mod length sched)) nb"
  let ?f = "\<lambda>b. (projr (?sq (nat b)), cmap (of_int b / of_int nr))"
  have ok: "\<And>i. ?sq i = Inr (projr (?sq i))"
    using squircle_points[OF nb] by simp
  have ring: "\<And>b. b \<in> set (py_range nr) \<Longrightarrow>
      plot_ring cmap nb nr p rad bw sched b = Inr (?f b)"
  proof -
    fix b assume "b \<in> set (py_range nr)"
    then obtain i where b: "b = int i" by (auto simp: py_range_def)
    obtain xy where xy: "?sq i = Inr xy" using ok[of i] by blast
    show "plot_ring cmap nb nr p rad bw sched b = Inr (?f b)"
      unfolding b by (simp add: plot_ring_index[OF l0 lp] xy)
  qed
  let ?rings = "map ?f (py_range nr)"
  have d: "draw_rings cmap nb nr p ro rad bw lines0 = Inr ?rings"
    unfolding draw_rings_def s
    using plot_rings_all[of "py_range nr" cmap nb nr p rad bw sched ?f "[]", OF ring]
    by (simp add: Let_def)
  have n: "length ?rings = nat nr" by (simp add: py_range_def)
  have "\<forall>i<nat nr. ?sq i = Inr (projr (?sq i))
          \<and> ?rings ! i = (projr (?sq i), cmap (real i / of_int nr))"
    using ok by (simp add: py_range_def)
  then have e: "\<forall>i<nat nr. \<exists>xy. ?sq i = Inr xy \<and> ?rings ! i = (xy, cmap (real i / of_int nr))"
    by blast
  from s lp l0 d n e show ?thesis by (metis (no_types, lifting))
qed

lemma float_mod_periodic: "0 < m \<Longrightarrow> float_mod (a + m) m = float_mod a m"
proof -
  assume m: "0 < m"
  have "(a + m) / m = a / m + 1" using m by (simp add: add_divide_distrib)
  then have "\<lfloor>(a + m) / m\<rfloor> = \<lfloor>a / m\<rfloor> + 1" by simp
  then show ?thesis by (simp add: float_mod_def algebra_simps)
qed

lemma circle_periodic: "circle r (a + 2 * pi) = circle r a"
  by (simp add: circle_def float_mod_periodic)

lemma squircle_even:
  assumes s: "1 \<le> s" and e: "even s"
  shows "squircle r w a s =
     Inr (map (\<lambda>k. fst (circle (if even k then r - w / 2 else r + w / 2)
                           (a + real k * (2 * pi / of_int s)))) [0..<Suc (nat s)],
          map (\<lambda>k. snd (circle (if even k then r - w / 2 else r + w / 2)
                           (a + real k * (2 * pi / of_int s)))) [0..<Suc (nat s)])"
proof -
  have en: "even (nat s)" using e s by (simp add: even_nat_iff)
  have "real (nat s) * (2 * pi / of_int s) = 2 * pi" using s by simp
  then have c: "circle (r - w / 2) (a + real (nat s) * (2 * pi / of_int s)) = circle (r - w / 2) a"
    by (simp only: circle_periodic)
  show ?thesis
    unfolding squircle_points[OF s] by (simp only: upt_Suc_append le0 map_append list.map en if_True c)
qed

lemma squircle_closed:
  assumes s: "1 \<le> s" and r: "squircle r w a s = Inr (x, y)"
  shows "int (length x) = s + 1" "int (length y) = s + 1" "last x = x ! 0" "last y = y ! 0"
proof -
  obtain n where n: "nat s = Suc n" using s by (cases "nat s") auto
  then have m: "s = 1 + int n" using s by linarith
  have "int (length x) = s + 1 \<and> int (length y) = s + 1 \<and> last x = x ! 0 \<and> last y = y ! 0"
    using r unfolding squircle_points[OF s]
    by (auto simp: n m nth_append upt_conv_Cons simp del: upt_Suc)
  then show "int (length x) = s + 1" "int (length y) = s + 1" "last x = x ! 0" "last y = y ! 0"
    by simp_all
qed

text \<open>
  Claim C1. For every valid parameter set (bump count \<open>\<ge> 2\<close>, ring count \<open>\<ge> 1\<close>, even
  rotation period \<open>\<ge> 4\<close>; the constraints on the three real parameters are not needed),
  whatever the axes held before, the loop draws exactly \<open>ring_count\<close> lines. The \<open>i\<close>-th
  line is what \<open>squircle\<close> returns for the radius \<open>1 + radial_step \<cdot> i\<close>, the bump width, the
  angle offset \<open>offsets[i mod len(offsets)]\<close> and \<open>bump_count \<cdot> 2\<close> segments, with the colour
  \<open>cmap(i / ring_count)\<close>; each of its two coordinate lists has \<open>bump_count \<cdot> 2 + 1\<close>
  entries, and its last point is its first.
\<close>

theorem draw_rings_pattern:
  assumes "2 \<le> bump_count" "1 \<le> ring_count" "even rotation_period" "4 \<le> rotation_period"
  shows "\<exists>sched rings.
       offsets_array rotation_period rotation_offset = Inr sched
     \<and> draw_rings cmap (bump_count * 2) ring_count rotation_period rotation_offset
           radial_step bump_width lines0 = Inr rings
     \<and> int (length rings) = ring_count
     \<and> (\<forall>i<nat ring_count. \<exists>x y.
           squircle (1 + radial_step * real i) bump_width (sched ! (i mod length sched))
             (bump_count * 2) = Inr (x, y)
           \<and> rings ! i = ((x, y), cmap (real i / of_int ring_count))
           \<and> int (length x) = bump_count * 2 + 1 \<and> int (length y) = bump_count * 2 + 1
           \<and> last x = x ! 0 \<and> last y = y ! 0)"
proof -
  have nb: "1 \<le> bump_count * 2" using assms(1) by simp
  obtain sched rings where s: "offsets_array rotation_period rotation_offset = Inr sched"
    and d: "draw_rings cmap (bump_count * 2) ring_count rotation_period rotation_offset
              radial_step bump_width lines0 = Inr rings"
    and n: "length rings = nat ring_count"
    and e: "\<forall>i<nat ring_count. \<exists>xy.
           squircle (1 + radial_step * real i) bump_width (sched ! (i mod length sched))
             (bump_count * 2) = Inr xy
           \<and> rings ! i = (xy, cmap (real i / of_int ring_count))"
    using draw_rings_valid[OF nb assms(3,4), of rotation_offset cmap ring_count radial_step
        bump_width lines0]
    by blast
  have n': "int (length rings) = ring_count" using n assms(2) by simp
  have "\<forall>i<nat ring_count. \<exists>x y.
           squircle (1 + radial_step * real i) bump_width (sched ! (i mod length sched))
             (bump_count * 2) = Inr (x, y)
           \<and> rings ! i = ((x, y), cmap (real i / of_int ring_count))
           \<and> int (length x) = bump_count * 2 + 1 \<and> int (length y) = bump_count * 2 + 1
           \<and> last x = x ! 0 \<and> last y = y ! 0"
  proof (intro allI impI)
    fix i assume "i < nat ring_count"
    then obtain x y where q: "squircle (1 + radial_step * real i) bump_width
        (sched ! (i mod length sched)) (bump_count * 2) = Inr (x, y)"
      and g: "rings ! i = ((x, y), cmap (real i / of_int ring_count))"
      using e by (metis surj_pair)
    from squircle_closed[OF nb q] q g
    show "\<exists>x y.
           squircle (1 + radial_step * real i) bump_width (sched ! (i mod length sched))
             (bump_count * 2) = Inr (x, y)
           \<and> rings ! i = ((x, y), cmap (real i / of_int ring_count))
           \<and> int (length x) = bump_count * 2 + 1 \<and> int (length y) = bump_count * 2 + 1
           \<and> last x = x ! 0 \<and> last y = y ! 0"
      by blast
  qed
  with s d n' show ?thesis by blast
qed

theorem draw_rings_pattern_witness:
  "(2::int) \<le> 2 \<and> (1::int) \<le> 1 \<and> even (4::int) \<and> (4::int) \<le> 4
   \<and> (\<exists>sched rings.
         offsets_array 4 0 = Inr sched
       \<and> draw_rings (\<lambda>t. t) (2 * 2) 1 4 0 (1 / 10) (1 / 10) [] = Inr rings
       \<and> int (length rings) = 1
       \<and> (\<exists>x y. squircle 1 (1 / 10) (sched ! 0) (2 * 2) = Inr (x, y)
             \<and> rings ! 0 = ((x, y), 0)
             \<and> int (length x) = 5 \<and> int (length y) = 5
             \<and> last x = x ! 0 \<and> last y = y ! 0))"
  using draw_rings_pattern [of 2 1 4 0 "\<lambda>t. t" "1 / 10" "1 / 10" "[]"]
  by simp

lemma offsets_array_4: "offsets_array 4 ro = Inr [0, ro]"
  using offsets_array_half[of 2 ro] by (simp add: numeral_2_eq_2)

lemma squircle_8:
  assumes "0 \<le> r - w / 2" "0 \<le> r + w / 2"
  shows "squircle r w 0 8 =
     Inr (map (\<lambda>k. (if even k then r - w / 2 else r + w / 2) * cos (real k * pi / 4)) [0..<9],
          map (\<lambda>k. (if even k then r - w / 2 else r + w / 2) * sin (real k * pi / 4)) [0..<9])"
proof -
  have n: "Suc (nat 8) = 9" by simp
  have c: "\<And>k. circle (if even k then r - w / 2 else r + w / 2) (0 + real k * (2 * pi / of_int 8))
      = ((if even k then r - w / 2 else r + w / 2) * cos (real k * pi / 4),
         (if even k then r - w / 2 else r + w / 2) * sin (real k * pi / 4))"
    using assms by (simp add: circle_polar)
  show ?thesis
    unfolding squircle_even[of 8 r w 0, simplified] n
    using c by simp
qed

text \<open>
  Claim C7. For the parameter set with bump count 4, ring count 2, rotation period 4,
  rotation offset 0, radial step 0.1 and bump width 0.1, every angle offset is 0 and the
  loop draws exactly two lines of 9 points each. The \<open>k\<close>-th point of a line lies at the
  angle \<open>k \<cdot> \<pi> / 4\<close> (45 degrees apart, from angle 0); in the first line its distance from
  the origin is 0.95 for even \<open>k\<close> and 1.05 for odd \<open>k\<close>, in the second line 1.05 and 1.15.
\<close>

theorem draw_rings_example:
  "offsets_array 4 0 = Inr [0, 0] \<and>
   draw_rings cmap (4 * 2) 2 4 0 (1 / 10) (1 / 10) lines0 =
     Inr [((map (\<lambda>k. (if even k then 95 / 100 else 105 / 100) * cos (real k * pi / 4)) [0..<9],
            map (\<lambda>k. (if even k then 95 / 100 else 105 / 100) * sin (real k * pi / 4)) [0..<9]),
           cmap 0),
          ((map (\<lambda>k. (if even k then 105 / 100 else 115 / 100) * cos (real k * pi / 4)) [0..<9],
            map (\<lambda>k. (if even k then 105 / 100 else 115 / 100) * sin (real k * pi / 4)) [0..<9]),
           cmap (1 / 2))]"
proof -
  have r: "py_range 2 = [0, 1]" by (simp add: py_range_def numeral_2_eq_2)
  have i0: "plot_ring cmap 8 2 4 (1 / 10) (1 / 10) [0, 0] 0 =
     Inr ((map (\<lambda>k. (if even k then 95 / 100 else 105 / 100) * cos (real k * pi / 4)) [0..<9],
            map (\<lambda>k. (if even k then 95 / 100 else 105 / 100) * sin (real k * pi / 4)) [0..<9]),
           cmap 0)"
    using squircle_8[of 1 "1 / 10"]
    by (simp add: plot_ring_def int_mod_def get_item_def)
  have i1: "plot_ring cmap 8 2 4 (1 / 10) (1 / 10) [0, 0] 1 =
     Inr ((map (\<lambda>k. (if even k then 105 / 100 else 115 / 100) * cos (real k * pi / 4)) [0..<9],
            map (\<lambda>k. (if even k then 105 / 100 else 115 / 100) * sin (real k * pi / 4)) [0..<9]),
           cmap (1 / 2))"
    using squircle_8[of "11 / 10" "1 / 10"]
    by (simp add: plot_ring_def int_mod_def get_item_def)
  show ?thesis
    by (simp add: offsets_array_4 draw_rings_def r i0 i1)
qed

subsection \<open>\<open>redraw\<close> on the window\<close>

text \<open>
  Claim C8. \<open>redraw\<close> is deterministic: two calls on windows with the same control
  values and the same gradient stops, whatever their axes hold, end in the same error or
  leave the same lines (coordinates and colours) on the axes; and a second call on the
  window left by a first one leaves it as it is. The axes are the only state \<open>redraw\<close>
  writes, and \<open>ax.clear()\<close> discards what they held.
\<close>

theorem redraw_deterministic:
  "(controls s1 = controls s2 \<and> gradient s1 = gradient s2 \<longrightarrow>
      map_sum id ax (redraw colormap s1) = map_sum id ax (redraw colormap s2))
   \<and> (redraw colormap s1 = Inr s1' \<longrightarrow> redraw colormap s1' = Inr s1')"
proof (intro conjI impI)
  assume "controls s1 = controls s2 \<and> gradient s1 = gradient s2"
  then show "map_sum id ax (redraw colormap s1) = map_sum id ax (redraw colormap s2)"
    by (simp add: redraw_def draw_rings_def Let_def split: sum.split)
next
  assume r: "redraw colormap s1 = Inr s1'"
  then have "controls s1' = controls s1" "gradient s1' = gradient s1"
    by (auto simp: redraw_def Let_def split: sum.splits)
  then show "redraw colormap s1' = Inr s1'"
    using r by (auto simp: redraw_def draw_rings_def Let_def split: sum.splits)
qed

theorem redraw_deterministic_witness:
  "controls \<lparr>controls = \<lparr>num_bumps = 2, num_rings = 1, rot_rings = 2, rot_offset = 0,
        rad_offset = 1, bump_size = 1\<rparr>, gradient = (), ax = []\<rparr>
     = controls \<lparr>controls = \<lparr>num_bumps = 2, num_rings = 1, rot_rings = 2, rot_offset = 0,
        rad_offset = 1, bump_size = 1\<rparr>, gradient = (), ax = [(([1], [2]), 3)]\<rparr>
   \<and> map_sum id ax (redraw (\<lambda>g. id) \<lparr>controls = \<lparr>num_bumps = 2, num_rings = 1, rot_rings = 2,
        rot_offset = 0, rad_offset = 1, bump_size = 1\<rparr>, gradient = (), ax = []\<rparr>)
     = map_sum id ax (redraw (\<lambda>g. id) \<lparr>controls = \<lparr>num_bumps = 2, num_rings = 1, rot_rings = 2,
        rot_offset = 0, rad_offset = 1, bump_size = 1\<rparr>, gradient = (), ax = [(([1], [2]), 3 :: real)]\<rparr>)"
  using redraw_deterministic [of
      "\<lparr>controls = \<lparr>num_bumps = 2, num_rings = 1, rot_rings = 2, rot_offset = 0,
        rad_offset = 1, bump_size = 1\<rparr>, gradient = (), ax = []\<rparr>"
      "\<lparr>controls = \<lparr>num_bumps = 2, num_rings = 1, rot_rings = 2, rot_offset = 0,
        rad_offset = 1, bump_size = 1\<rparr>, gradient = (), ax = [(([1], [2]), 3 :: real)]\<rparr>"
      "\<lambda>g. id"]
  by simp

lemma squircle_final_segment:
  assumes s: "1 \<le> s" and e: "even s" and q: "squircle r w a s = Inr xy"
  shows "(fst xy ! (nat s - 1), snd xy ! (nat s - 1))
           = circle (r + w / 2) (a + real (nat s - 1) * (2 * pi / of_int s))"
    and "(fst xy ! nat s, snd xy ! nat s) = circle (r - w / 2) a"
proof -
  obtain n where n: "nat s = Suc n" using s by (cases "nat s") auto
  have "even (nat s)" using e s by (simp add: even_nat_iff)
  then have o: "odd n" using n by simp
  have xy: "xy =
     (map (\<lambda>k. fst (circle (if even k then r - w / 2 else r + w / 2)
                           (a + real k * (2 * pi / of_int s)))) [0..<nat s]
            @ [fst (circle (r - w / 2) a)],
      map (\<lambda>k. snd (circle (if even k then r - w / 2 else r + w / 2)
                           (a + real k * (2 * pi / of_int s)))) [0..<nat s]
            @ [snd (circle (r - w / 2) a)])"
    using q unfolding squircle_points[OF s] by simp
  show "(fst xy ! (nat s - 1), snd xy ! (nat s - 1))
           = circle (r + w / 2) (a + real (nat s - 1) * (2 * pi / of_int s))"
    unfolding xy n using o by (simp add: nth_append del: upt_Suc)
  show "(fst xy ! nat s, snd xy ! nat s) = circle (r - w / 2) a"
    unfolding xy by (simp add: nth_append)
qed

text \<open>
  Claim C10 says that, the segment count \<open>num_bumps \<cdot> 2\<close> being even, every drawn ring
  closes with an inner-to-inner final segment. It does not: with an even segment count
  \<open>n\<close> the point \<open>n - 1\<close> has an odd index and lies on the outer circle, and the closing
  point is the copy of point 0, on the inner circle. For the widget values
  \<open>num_bumps = 2\<close>, \<open>num_rings = 1\<close>, \<open>rot_rings = 2\<close>, rotation offset 0, radius offset 1
  and bump size 1 the one line drawn ends with the segment from \<open>(0, - 3/2)\<close>, at the
  distance \<open>1 + 1/2\<close> from the origin, to \<open>(1/2, 0)\<close>, at the distance \<open>1 - 1/2\<close>.
\<close>

theorem final_segment_counterexample:
  "draw_rings id (2 * 2) 1 (2 * 2) 0 1 1 []
     = Inr [(([1 / 2, 0, - (1 / 2), 0, 1 / 2], [0, 3 / 2, 0, - (3 / 2), 0]), 0)]
   \<and> (0::real)\<^sup>2 + (- (3 / 2))\<^sup>2 = (1 + 1 / 2)\<^sup>2
   \<and> (1 / 2 :: real)\<^sup>2 + 0\<^sup>2 = (1 - 1 / 2)\<^sup>2"
proof -
  have r: "py_range 1 = [0]" by (simp add: py_range_def)
  have u: "[0..<5] = [0, 1, 2, 3, 4]" by (simp add: upt_rec)
  have t: "3 * pi / 2 = 3 / 2 * pi" by simp
  have c: "cos (3 * pi / 2) = 0" "sin (3 * pi / 2) = - 1"
    unfolding t by (simp_all del: times_divide_eq_left)
  have sq: "squircle 1 1 0 4 = Inr ([1 / 2, 0, - (1 / 2), 0, 1 / 2], [0, 3 / 2, 0, - (3 / 2), 0])"
    using squircle_even[of 4 1 1 0] by (simp add: u circle_polar c)
  have "draw_rings id (2 * 2) 1 (2 * 2) 0 1 1 []
     = Inr [(([1 / 2, 0, - (1 / 2), 0, 1 / 2], [0, 3 / 2, 0, - (3 / 2), 0]), 0)]"
    by (simp add: draw_rings_def offsets_array_4 r plot_ring_def int_mod_def get_item_def sq)
  then show ?thesis by (simp add: power2_eq_square)
qed

text \<open>
  Claim C10, amended. \<open>redraw\<close> doubles two widget values before it computes. With the
  widget minimums (2 for \<open>num_bumps\<close>, 1 for \<open>num_rings\<close>, 2 for \<open>rot_rings\<close>): the segment
  count \<open>num_bumps \<cdot> 2\<close> is even; the internal rotation period \<open>rot_rings \<cdot> 2\<close> is even and
  at least 4; the offsets array has \<open>rot_rings \<cdot> 2 - 2 \<ge> 2\<close> entries, so
  \<open>bidx % (rot_rings - 2)\<close> never divides by zero; and \<open>redraw\<close> returns, having drawn
  \<open>num_rings\<close> lines with \<open>num_bumps \<cdot> 2\<close> segments each. Since the segment count \<open>n\<close> is
  even, the final segment of each line runs from the outer circle to the inner one: the
  point \<open>n - 1\<close> lies on the outer circle, and the closing point, the copy of point 0, lies
  on the inner circle, where the alternation puts index \<open>n\<close>; so the line is the
  alternating sequence over \<open>k = 0, \<dots>, n\<close>.
\<close>

theorem redraw_gui_period:
  assumes v: "controls self = v"
    and nb: "2 \<le> num_bumps v" and nr: "1 \<le> num_rings v" and rr: "2 \<le> rot_rings v"
  shows "even (num_bumps v * 2) \<and> even (rot_rings v * 2) \<and> 4 \<le> rot_rings v * 2
     \<and> (\<exists>sched self'.
           offsets_array (rot_rings v * 2) (rot_offset v) = Inr sched
         \<and> int (length sched) = rot_rings v * 2 - 2 \<and> 2 \<le> length sched
         \<and> (\<forall>bidx. int_mod bidx (rot_rings v * 2 - 2) = Inr (bidx mod int (length sched)))
         \<and> redraw colormap self = Inr self'
         \<and> length (ax self') = nat (num_rings v)
         \<and> (\<forall>i<nat (num_rings v). \<exists>xy.
               squircle (1 + rad_offset v * real i) (bump_size v) (sched ! (i mod length sched))
                 (num_bumps v * 2) = Inr xy
             \<and> ax self' ! i = (xy, colormap (gradient self) (real i / of_int (num_rings v)))
             \<and> (fst xy ! (nat (num_bumps v * 2) - 1), snd xy ! (nat (num_bumps v * 2) - 1))
                 = circle (1 + rad_offset v * real i + bump_size v / 2)
                     (sched ! (i mod length sched)
                      + real (nat (num_bumps v * 2) - 1) * (2 * pi / of_int (num_bumps v * 2)))
             \<and> (fst xy ! nat (num_bumps v * 2), snd xy ! nat (num_bumps v * 2))
                 = circle (1 + rad_offset v * real i - bump_size v / 2)
                     (sched ! (i mod length sched))
             \<and> xy =
                 (map (\<lambda>k. fst (circle (if even k then 1 + rad_offset v * real i - bump_size v / 2
                                          else 1 + rad_offset v * real i + bump_size v / 2)
                                   (sched ! (i mod length sched)
                                    + real k * (2 * pi / of_int (num_bumps v * 2)))))
                    [0..<Suc (nat (num_bumps v * 2))],
                  map (\<lambda>k. snd (circle (if even k then 1 + rad_offset v * real i - bump_size v / 2
                                          else 1 + rad_offset v * real i + bump_size v / 2)
                                   (sched ! (i mod length sched)
                                    + real k * (2 * pi / of_int (num_bumps v * 2)))))
                    [0..<Suc (nat (num_bumps v * 2))])))"
proof -
  have n1: "1 \<le> num_bumps v * 2" using nb by simp
  have ev: "even (num_bumps v * 2)" by simp
  have p: "even (rot_rings v * 2)" "4 \<le> rot_rings v * 2" using rr by simp_all
  obtain sched rings where s: "offsets_array (rot_rings v * 2) (rot_offset v) = Inr sched"
    and l: "int (length sched) = rot_rings v * 2 - 2"
    and d: "draw_rings (colormap (gradient self)) (num_bumps v * 2) (num_rings v)
              (rot_rings v * 2) (rot_offset v) (rad_offset v) (bump_size v) (ax self) = Inr rings"
    and n: "length rings = nat (num_rings v)"
    and e: "\<forall>i<nat (num_rings v). \<exists>xy.
           squircle (1 + rad_offset v * real i) (bump_size v) (sched ! (i mod length sched))
             (num_bumps v * 2) = Inr xy
           \<and> rings ! i = (xy, colormap (gradient self) (real i / of_int (num_rings v)))"
    using draw_rings_valid[OF n1 p, of "rot_offset v" "colormap (gradient self)" "num_rings v"
        "rad_offset v" "bump_size v" "ax self"]
    by blast
  have l2: "2 \<le> length sched" using l rr by linarith
  have m: "\<forall>bidx. int_mod bidx (rot_rings v * 2 - 2) = Inr (bidx mod int (length sched))"
    using l l2 by (simp add: int_mod_def)
  have r: "redraw colormap self = Inr (self\<lparr>ax := rings\<rparr>)"
    using d by (simp add: redraw_def Let_def v)
  have "\<forall>i<nat (num_rings v). \<exists>xy.
               squircle (1 + rad_offset v * real i) (bump_size v) (sched ! (i mod length sched))
                 (num_bumps v * 2) = Inr xy
             \<and> rings ! i = (xy, colormap (gradient self) (real i / of_int (num_rings v)))
             \<and> (fst xy ! (nat (num_bumps v * 2) - 1), snd xy ! (nat (num_bumps v * 2) - 1))
                 = circle (1 + rad_offset v * real i + bump_size v / 2)
                     (sched ! (i mod length sched)
                      + real (nat (num_bumps v * 2) - 1) * (2 * pi / of_int (num_bumps v * 2)))
             \<and> (fst xy ! nat (num_bumps v * 2), snd xy ! nat (num_bumps v * 2))
                 = circle (1 + rad_offset v * real i - bump_size v / 2)
                     (sched ! (i mod length sched))
             \<and> xy =
                 (map (\<lambda>k. fst (circle (if even k then 1 + rad_offset v * real i - bump_size v / 2
                                          else 1 + rad_offset v * real i + bump_size v / 2)
                                   (sched ! (i mod length sched)
                                    + real k * (2 * pi / of_int (num_bumps v * 2)))))
                    [0..<Suc (nat (num_bumps v * 2))],
                  map (\<lambda>k. snd (circle (if even k then 1 + rad_offset v * real i - bump_size v / 2
                                          else 1 + rad_offset v * real i + bump_size v / 2)
                                   (sched ! (i mod length sched)
                                    + real k * (2 * pi / of_int (num_bumps v * 2)))))
                    [0..<Suc (nat (num_bumps v * 2))])"
  proof (intro allI impI)
    fix i assume "i < nat (num_rings v)"
    then obtain xy where q: "squircle (1 + rad_offset v * real i) (bump_size v)
        (sched ! (i mod length sched)) (num_bumps v * 2) = Inr xy"
      and g: "rings ! i = (xy, colormap (gradient self) (real i / of_int (num_rings v)))"
      using e by blast
    note f = squircle_final_segment[OF n1 ev q]
    have c: "xy =
                 (map (\<lambda>k. fst (circle (if even k then 1 + rad_offset v * real i - bump_size v / 2
                                          else 1 + rad_offset v * real i + bump_size v / 2)
                                   (sched ! (i mod length sched)
                                    + real k * (2 * pi / of_int (num_bumps v * 2)))))
                    [0..<Suc (nat (num_bumps v * 2))],
                  map (\<lambda>k. snd (circle (if even k then 1 + rad_offset v * real i - bump_size v / 2
                                          else 1 + rad_offset v * real i + bump_size v / 2)
                                   (sched ! (i mod length sched)
                                    + real k * (2 * pi / of_int (num_bumps v * 2)))))
                    [0..<Suc (nat (num_bumps v * 2))])"
      using q unfolding squircle_even[OF n1 ev] by simp
    from q g f c show "\<exists>xy.
               squircle (1 + rad_offset v * real i) (bump_size v) (sched ! (i mod length sched))
                 (num_bumps v * 2) = Inr xy
             \<and> rings ! i = (xy, colormap (gradient self) (real i / of_int (num_rings v)))
             \<and> (fst xy ! (nat (num_bumps v * 2) - 1), snd xy ! (nat (num_bumps v * 2) - 1))
                 = circle (1 + rad_offset v * real i + bump_size v / 2)
                     (sched ! (i mod length sched)
                      + real (nat (num_bumps v * 2) - 1) * (2 * pi / of_int (num_bumps v * 2)))
             \<and> (fst xy ! nat (num_bumps v * 2), snd xy ! nat (num_bumps v * 2))
                 = circle (1 + rad_offset v * real i - bump_size v / 2)
                     (sched ! (i mod length sched))
             \<and> xy =
                 (map (\<lambda>k. fst (circle (if even k then 1 + rad_offset v * real i - bump_size v / 2
                                          else 1 + rad_offset v * real i + bump_size v / 2)
                                   (sched ! (i mod length sched)
                                    + real k * (2 * pi / of_int (num_bumps v * 2)))))
                    [0..<Suc (nat (num_bumps v * 2))],
                  map (\<lambda>k. snd (circle (if even k then 1 + rad_offset v * real i - bump_size v / 2
                                          else 1 + rad_offset v * real i + bump_size v / 2)
                                   (sched ! (i mod length sched)
                                    + real k * (2 * pi / of_int (num_bumps v * 2)))))
                    [0..<Suc (nat (num_bumps v * 2))])"
      by blast
  qed
  then have "\<exists>sched self'.
           offsets_array (rot_rings v * 2) (rot_offset v) = Inr sched
         \<and> int (length sched) = rot_rings v * 2 - 2 \<and> 2 \<le> length sched
         \<and> (\<forall>bidx. int_mod bidx (rot_rings v * 2 - 2) = Inr (bidx mod int (length sched)))
         \<and> redraw colormap self = Inr self'
         \<and> length (ax self') = nat (num_rings v)
         \<and> (\<forall>i<nat (num_rings v). \<exists>xy.
               squircle (1 + rad_offset v * real i) (bump_size v) (sched ! (i mod length sched))
                 (num_bumps v * 2) = Inr xy
             \<and> ax self' ! i = (xy, colormap (gradient self) (real i / of_int (num_rings v)))
             \<and> (fst xy ! (nat (num_bumps v * 2) - 1), snd xy ! (nat (num_bumps v * 2) - 1))
                 = circle (1 + rad_offset v * real i + bump_size v / 2)
                     (sched ! (i mod length sched)
                      + real (nat (num_bumps v * 2) - 1) * (2 * pi / of_int (num_bumps v * 2)))
             \<and> (fst xy ! nat (num_bumps v * 2), snd xy ! nat (num_bumps v * 2))
                 = circle (1 + rad_offset v * real i - bump_size v / 2)
                     (sched ! (i mod length sched))
             \<and> xy =
                 (map (\<lambda>k. fst (circle (if even k then 1 + rad_offset v * real i - bump_size v / 2
                                          else 1 + rad_offset v * real i + bump_size v / 2)
                                   (sched ! (i mod length sched)
                                    + real k * (2 * pi / of_int (num_bumps v * 2)))))
                    [0..<Suc (nat (num_bumps v * 2))],
                  map (\<lambda>k. snd (circle (if even k then 1 + rad_offset v * real i - bump_size v / 2
                                          else 1 + rad_offset v * real i + bump_size v / 2)
                                   (sched ! (i mod length sched)
                                    + real k * (2 * pi / of_int (num_bumps v * 2)))))
                    [0..<Suc (nat (num_bumps v * 2))]))"
    using s l l2 m r n
    by (intro exI[of _ sched] exI[of _ "self\<lparr>ax := rings\<rparr>"]) simp
  with ev p show ?thesis by blast
qed

theorem redraw_gui_period_witness:
  "controls \<lparr>controls = \<lparr>num_bumps = 2, num_rings = 1, rot_rings = 2, rot_offset = 0,
        rad_offset = 1, bump_size = 1\<rparr>, gradient = (), ax = []\<rparr>
     = \<lparr>num_bumps = 2, num_rings = 1, rot_rings = 2, rot_offset = 0, rad_offset = 1, bump_size = 1\<rparr>
   \<and> (2::int) \<le> 2 \<and> (1::int) \<le> 1
   \<and> (\<exists>sched self'.
         offsets_array 4 0 = Inr sched \<and> length sched = 2
       \<and> int_mod 7 (2 * 2 - 2) = Inr 1
       \<and> redraw (\<lambda>g. id) \<lparr>controls = \<lparr>num_bumps = 2, num_rings = 1, rot_rings = 2,
             rot_offset = 0, rad_offset = 1, bump_size = 1\<rparr>, gradient = (), ax = []\<rparr> = Inr self'
       \<and> length (ax self') = 1)"
proof -
  obtain sched self' where "offsets_array 4 0 = Inr sched" "int (length sched) = 2"
    "int_mod 7 2 = Inr (7 mod int (length sched))"
    "redraw (\<lambda>g. id) \<lparr>controls = \<lparr>num_bumps = 2, num_rings = 1, rot_rings = 2,
             rot_offset = 0, rad_offset = 1, bump_size = 1\<rparr>, gradient = (), ax = []\<rparr> = Inr self'"
    "length (ax self') = 1"
    using redraw_gui_period [of
      "\<lparr>controls = \<lparr>num_bumps = 2, num_rings = 1, rot_rings = 2, rot_offset = 0,
        rad_offset = 1, bump_size = 1\<rparr>, gradient = (), ax = []\<rparr>"
      "\<lparr>num_bumps = 2, num_rings = 1, rot_rings = 2, rot_offset = 0, rad_offset = 1, bump_size = 1\<rparr>"
      "\<lambda>g. id"]
    by auto
  then show ?thesis by auto
qed

subsection \<open>Parameters outside the widgets' ranges\<close>

lemma offsets_array_below_2: "p < 2 \<Longrightarrow> offsets_array p ro = Inl ValueError"
  by (simp add: offsets_array_def np_zeros_def)

lemma offsets_array_2: "offsets_array 2 ro = Inr []"
  by (simp add: offsets_array_def np_zeros_def linspace_def set_slice_def slice_bound_def
      get_slice_def Let_def)

lemma offsets_array_3: "offsets_array 3 ro = Inr [0]"
  by (simp add: offsets_array_def np_zeros_def linspace_def set_slice_def slice_bound_def
      get_slice_def Let_def)

lemma py_range_empty: "n < 1 \<Longrightarrow> py_range n = []"
  by (simp add: py_range_def)

lemma py_range_first: "1 \<le> n \<Longrightarrow> \<exists>bs. py_range n = 0 # bs"
proof -
  assume "1 \<le> n"
  then obtain m where "nat n = Suc m" by (cases "nat n") auto
  then show ?thesis by (simp add: py_range_def upt_conv_Cons del: upt_Suc)
qed

lemma draw_rings_first_fails:
  assumes "offsets_array p ro = Inr offs" "1 \<le> nr"
    and "plot_ring cmap nb nr p rad bw offs 0 = Inl e"
  shows "draw_rings cmap nb nr p ro rad bw lines0 = Inl e"
proof -
  obtain bs where "py_range nr = 0 # bs" using py_range_first[OF assms(2)] by blast
  then show ?thesis using assms(1,3) by (simp add: draw_rings_def)
qed

lemma draw_rings_period_3:
  assumes nb: "1 \<le> nb"
  shows "\<exists>rings. draw_rings cmap nb nr 3 ro rad bw lines0 = Inr rings \<and> length rings = nat nr"
proof -
  let ?f = "\<lambda>b. (projr (squircle (1 + rad * of_int b) bw 0 nb), cmap (of_int b / of_int nr))"
  have ring: "\<And>b. b \<in> set (py_range nr) \<Longrightarrow> plot_ring cmap nb nr 3 rad bw [0] b = Inr (?f b)"
  proof -
    fix b assume "b \<in> set (py_range nr)"
    have "squircle (1 + rad * of_int b) bw 0 nb = Inr (projr (squircle (1 + rad * of_int b) bw 0 nb))"
      using squircle_points[OF nb] by simp
    then obtain xy where xy: "squircle (1 + rad * of_int b) bw 0 nb = Inr xy" by blast
    show "plot_ring cmap nb nr 3 rad bw [0] b = Inr (?f b)"
      by (simp add: plot_ring_def int_mod_def get_item_def xy)
  qed
  have "draw_rings cmap nb nr 3 ro rad bw lines0 = Inr (map ?f (py_range nr))"
    unfolding draw_rings_def offsets_array_3
    using plot_rings_all[of "py_range nr" cmap nb nr 3 rad bw "[0]" ?f "[]", OF ring]
    by (simp add: Let_def)
  then show ?thesis by (simp add: py_range_def)
qed

text \<open>
  Claim C3 says that a rotation period below 4, a bump count below 2 or a ring count
  below 1 makes the generator fail at once with a validation error instead of a numeric
  exception from the geometry code. The source validates nothing; the widgets' minimums
  are what keeps such values away. Two inputs show it: with rotation period 2 and two
  rings the \<open>ZeroDivisionError\<close> of \<open>bidx % (rot_rings - 2)\<close> comes out of the loop, and
  with ring count 0 nothing is drawn and no error is raised.
\<close>

theorem draw_rings_no_validation_counterexample:
  "draw_rings id (4 * 2) 2 2 0 (1 / 10) (1 / 10) [] = Inl ZeroDivisionError
   \<and> draw_rings id (4 * 2) 0 4 0 (1 / 10) (1 / 10) [] = Inr []"
proof
  have o: "offsets_array 2 0 = Inr []" by (rule offsets_array_2)
  have r: "py_range 2 = [0, 1]" by (simp add: py_range_def numeral_2_eq_2)
  show "draw_rings id (4 * 2) 2 2 0 (1 / 10) (1 / 10) [] = Inl ZeroDivisionError"
    by (simp add: draw_rings_def o r plot_ring_def int_mod_def)
  show "draw_rings id (4 * 2) 0 4 0 (1 / 10) (1 / 10) [] = Inr []"
    by (simp add: draw_rings_def offsets_array_4 py_range_def)
qed

text \<open>
  Claim C3, amended. The loop of \<open>redraw\<close> does no validation of its own; outside the
  widgets' ranges it does what numpy and Python do:
  \<^item> a rotation period below 2 raises the \<open>ValueError\<close> of \<open>np.zeros\<close>;
  \<^item> rotation period 2 with at least one ring raises the \<open>ZeroDivisionError\<close> of \<open>bidx % 0\<close>;
  \<^item> rotation period 3 with a bump count \<open>\<ge> 1\<close> draws \<open>ring_count\<close> lines without an error;
  \<^item> a ring count below 1 (even rotation period \<open>\<ge> 2\<close>) draws nothing, without an error;
  \<^item> bump count 1 (even rotation period \<open>\<ge> 4\<close>) draws \<open>ring_count\<close> lines without an error;
  \<^item> a bump count below 1, with at least one ring and an even rotation period \<open>\<ge> 4\<close>,
    raises the \<open>IndexError\<close> of \<open>x[0]\<close> in \<open>squircle\<close> (bump count 0) or the \<open>ValueError\<close>
    of \<open>np.linspace\<close> (negative bump count).
\<close>

theorem draw_rings_unvalidated:
  "(rotation_period < 2 \<longrightarrow>
      draw_rings cmap (bump_count * 2) ring_count rotation_period rotation_offset radial_step
        bump_width lines0 = Inl ValueError)
   \<and> (1 \<le> ring_count \<longrightarrow>
      draw_rings cmap (bump_count * 2) ring_count 2 rotation_offset radial_step
        bump_width lines0 = Inl ZeroDivisionError)
   \<and> (1 \<le> bump_count \<longrightarrow>
      (\<exists>rings. draw_rings cmap (bump_count * 2) ring_count 3 rotation_offset radial_step
          bump_width lines0 = Inr rings \<and> length rings = nat ring_count))
   \<and> (ring_count < 1 \<and> even rotation_period \<and> 2 \<le> rotation_period \<longrightarrow>
      draw_rings cmap (bump_count * 2) ring_count rotation_period rotation_offset radial_step
        bump_width lines0 = Inr [])
   \<and> (even rotation_period \<and> 4 \<le> rotation_period \<longrightarrow>
      (\<exists>rings. draw_rings cmap (1 * 2) ring_count rotation_period rotation_offset radial_step
          bump_width lines0 = Inr rings \<and> length rings = nat ring_count))
   \<and> (bump_count < 1 \<and> 1 \<le> ring_count \<and> even rotation_period \<and> 4 \<le> rotation_period \<longrightarrow>
      draw_rings cmap (bump_count * 2) ring_count rotation_period rotation_offset radial_step
        bump_width lines0 = Inl (if bump_count < 0 then ValueError else IndexError))"
proof (intro conjI impI)
  assume "rotation_period < 2"
  then show "draw_rings cmap (bump_count * 2) ring_count rotation_period rotation_offset
      radial_step bump_width lines0 = Inl ValueError"
    by (simp add: draw_rings_def offsets_array_below_2)
next
  assume rc: "1 \<le> ring_count"
  show "draw_rings cmap (bump_count * 2) ring_count 2 rotation_offset radial_step
      bump_width lines0 = Inl ZeroDivisionError"
    by (rule draw_rings_first_fails[OF offsets_array_2 rc]) (simp add: plot_ring_def int_mod_def)
next
  assume "1 \<le> bump_count"
  then have "1 \<le> bump_count * 2" by simp
  then show "\<exists>rings. draw_rings cmap (bump_count * 2) ring_count 3 rotation_offset radial_step
      bump_width lines0 = Inr rings \<and> length rings = nat ring_count"
    by (rule draw_rings_period_3)
next
  assume a: "ring_count < 1 \<and> even rotation_period \<and> 2 \<le> rotation_period"
  then have "rotation_period = 2 \<or> 4 \<le> rotation_period" by presburger
  then obtain offs where "offsets_array rotation_period rotation_offset = Inr offs"
    using a offsets_array_2 offsets_array_even by blast
  then show "draw_rings cmap (bump_count * 2) ring_count rotation_period rotation_offset
      radial_step bump_width lines0 = Inr []"
    using a by (simp add: draw_rings_def py_range_empty)
next
  assume a: "even rotation_period \<and> 4 \<le> rotation_period"
  have "(1::int) \<le> 1 * 2" by simp
  from draw_rings_valid[OF this, of rotation_period rotation_offset cmap ring_count radial_step
      bump_width lines0] a
  show "\<exists>rings. draw_rings cmap (1 * 2) ring_count rotation_period rotation_offset radial_step
      bump_width lines0 = Inr rings \<and> length rings = nat ring_count"
    by blast
next
  assume a: "bump_count < 1 \<and> 1 \<le> ring_count \<and> even rotation_period \<and> 4 \<le> rotation_period"
  then obtain h sched where s: "offsets_array rotation_period rotation_offset = Inr sched"
    and l: "length sched = 2 * h - 2" and h: "2 \<le> h" and ph: "rotation_period = 2 * int h"
    using offsets_array_nth[of rotation_period rotation_offset] by blast
  have l0: "0 < length sched" using l h by arith
  have lp: "rotation_period - 2 = int (length sched)" using l h ph by simp
  have sq: "\<And>r w an. squircle r w an (bump_count * 2)
      = Inl (if bump_count < 0 then ValueError else IndexError)"
    using a squircle_fails[of "bump_count * 2"] by simp
  have "plot_ring cmap (bump_count * 2) ring_count rotation_period radial_step bump_width sched
      (int 0) = Inl (if bump_count < 0 then ValueError else IndexError)"
    unfolding plot_ring_index[OF l0 lp] sq by simp
  then show "draw_rings cmap (bump_count * 2) ring_count rotation_period rotation_offset
      radial_step bump_width lines0 = Inl (if bump_count < 0 then ValueError else IndexError)"
    using a by (intro draw_rings_first_fails[OF s]) simp_all
qed

theorem draw_rings_unvalidated_witness:
  "(1::int) < 2 \<and> draw_rings id (4 * 2) 2 1 0 (1 / 10) (1 / 10) [] = Inl ValueError
   \<and> (1::int) \<le> 2 \<and> draw_rings id (4 * 2) 2 2 0 (1 / 10) (1 / 10) [] = Inl ZeroDivisionError
   \<and> (1::int) \<le> 4
   \<and> (\<exists>rings. draw_rings id (4 * 2) 2 3 0 (1 / 10) (1 / 10) [] = Inr rings \<and> length rings = 2)"
  using draw_rings_unvalidated [of 1 id 4 2 0 "1 / 10" "1 / 10" "[]"]
  by simp

end
